theory Spec2Isabelle
  imports Main "HOL-Library.Sublist"
begin

section \<open>Strings of the Go standard library used by main.go\<close>

text \<open>
  A Go string is a sequence of bytes, modelled as \<open>string\<close> (a list of 8-bit
  characters). Three library functions are called by \<open>main.go\<close>: the default split
  function of \<open>bufio.Scanner\<close> (\<open>ScanLines\<close>), \<open>strings.TrimSpace\<close> and
  \<open>strings.Contains\<close>.
\<close>

definition dropCR :: "string \<Rightarrow> string" where
  "dropCR data = (if data \<noteq> [] \<and> last data = CHR 0x0D then butlast data else data)"

text \<open>
  \<open>scan_lines_acc cur data\<close>: the tokens the line splitter yields for the bytes
  \<open>cur @ data\<close>, when \<open>cur\<close> holds the bytes of the current line read so far. A line
  ends at a newline, a trailing carriage return is dropped, and a last line with no
  newline is a token when it is not empty.
\<close>

fun scan_lines_acc :: "string \<Rightarrow> string \<Rightarrow> string list" where
  "scan_lines_acc cur [] = (if cur = [] then [] else [dropCR cur])"
| "scan_lines_acc cur (c # cs) =
     (if c = CHR 0x0A then dropCR cur # scan_lines_acc [] cs
      else scan_lines_acc (cur @ [c]) cs)"

definition ScanLines :: "string \<Rightarrow> string list" where
  "ScanLines data = scan_lines_acc [] data"

definition asciiSpace :: "char \<Rightarrow> bool" where
  "asciiSpace c = (c \<in> {CHR 0x09, CHR 0x0A, CHR 0x0B, CHR 0x0C, CHR 0x0D, CHR 0x20})"

text \<open>
  The UTF-8 encodings of the white space runes beyond ASCII (U+0085, U+00A0, U+1680,
  U+2000 to U+200A, U+2028, U+2029, U+202F, U+205F, U+3000).
\<close>

definition unicodeSpaces :: "string list" where
  "unicodeSpaces =
     [[CHR 0xC2, CHR 0x85], [CHR 0xC2, CHR 0xA0], [CHR 0xE1, CHR 0x9A, CHR 0x80],
      [CHR 0xE2, CHR 0x80, CHR 0x80], [CHR 0xE2, CHR 0x80, CHR 0x81],
      [CHR 0xE2, CHR 0x80, CHR 0x82], [CHR 0xE2, CHR 0x80, CHR 0x83],
      [CHR 0xE2, CHR 0x80, CHR 0x84], [CHR 0xE2, CHR 0x80, CHR 0x85],
      [CHR 0xE2, CHR 0x80, CHR 0x86], [CHR 0xE2, CHR 0x80, CHR 0x87],
      [CHR 0xE2, CHR 0x80, CHR 0x88], [CHR 0xE2, CHR 0x80, CHR 0x89],
      [CHR 0xE2, CHR 0x80, CHR 0x8A], [CHR 0xE2, CHR 0x80, CHR 0xA8],
      [CHR 0xE2, CHR 0x80, CHR 0xA9], [CHR 0xE2, CHR 0x80, CHR 0xAF],
      [CHR 0xE2, CHR 0x81, CHR 0x9F], [CHR 0xE3, CHR 0x80, CHR 0x80]]"

definition stripLeft1 :: "string \<Rightarrow> string" where
  "stripLeft1 s =
     (case s of
        [] \<Rightarrow> []
      | c # t \<Rightarrow>
          if asciiSpace c then t
          else (case find (\<lambda>u. prefix u s) unicodeSpaces of
                  Some u \<Rightarrow> drop (length u) s
                | None \<Rightarrow> s))"

definition stripRight1 :: "string \<Rightarrow> string" where
  "stripRight1 s =
     (if s = [] then []
      else if asciiSpace (last s) then butlast s
      else (case find (\<lambda>u. suffix u s) unicodeSpaces of
              Some u \<Rightarrow> take (length s - length u) s
            | None \<Rightarrow> s))"

text \<open>
  \<open>strings.TrimSpace\<close>: leading white space runes are removed one at a time, then the
  trailing ones. A removal shortens the string, so at most \<open>length s\<close> runes are
  removed, and a string with no white space at its end is left as it is: \<open>length s\<close>
  rounds reach the fixed point.
\<close>

fun strip_rounds :: "(string \<Rightarrow> string) \<Rightarrow> nat \<Rightarrow> string \<Rightarrow> string" where
  "strip_rounds f 0 s = s"
| "strip_rounds f (Suc n) s = strip_rounds f n (f s)"

definition TrimSpace :: "string \<Rightarrow> string" where
  "TrimSpace s =
     (let l = strip_rounds stripLeft1 (length s) s in strip_rounds stripRight1 (length l) l)"

text \<open>\<open>strings.Contains s substr\<close>: \<open>substr\<close> occurs in \<open>s\<close> as a contiguous block.\<close>

fun Contains :: "string \<Rightarrow> string \<Rightarrow> bool" where
  "Contains [] substr = (substr = [])"
| "Contains (c # s) substr = (prefix substr (c # s) \<or> Contains s substr)"

section \<open>Data of main.go\<close>

text \<open>
  \<open>processingResult\<close> without its two time fields (\<open>StartTime\<close>, \<open>Duration\<close>), which
  only appear in log lines. An \<open>error\<close> value is \<open>None\<close> for \<open>nil\<close> and \<open>Some msg\<close>
  for an error whose \<open>Error()\<close> text is \<open>msg\<close>.
\<close>

record processingResult =
  Identifier :: string
  ItemNumber :: nat
  Error :: "string option"
  ArchiveErr :: "string option"

text \<open>
  The program point of one \<open>processVideo\<close> goroutine. From \<open>AtUnmark\<close> on the
  goroutine has left the function body and runs its deferred calls, in reverse order
  of registration: \<open>unmarkPending\<close> (when it was registered), the send of \<open>result\<close>,
  \<open>wg.Done\<close>.
\<close>

datatype pc =
    AtBanner
  | AtMarkPending
  | AtArchiveCheck
  | AtCmdRun
  | AtAppend
  | AtUnmark processingResult
  | AtSend processingResult
  | Returned

datatype fs_op =
    OpenRead bool
  | ScanFile
  | OpenAppend bool
  | WriteFile string

datatype log_line =
    FatalMsg string
  | UsageMsg
  | StartMsg nat
  | ItemBanner nat nat string
  | LogArchiveError nat string string
  | LogSkipped nat string
  | LogFailed nat string string
  | LogSuccess nat string
  | SummaryMsg bool nat nat nat nat

text \<open>
  The global variables of the program, the archive file and what \<open>main\<close> holds.
  \<open>SafeSet\<close> is a map to the empty struct behind a mutex: a set whose operations are
  atomic. \<open>archiveFile\<close> is the content of the archive file, \<open>None\<close> when the file does
  not exist; \<open>fsops\<close> lists the file operations made on it. \<open>results\<close> is the buffered
  channel (oldest first) and \<open>closed\<close> tells whether it has been closed.
  \<open>shutdownSignal\<close> is the number of signals held by the channel of capacity 1.
  \<open>exit_code\<close> is \<open>None\<close> while the process runs. The counters hold at most one unit per
  element of \<open>os.Args\<close>, so the 64-bit counters cannot wrap and are natural numbers here.
\<close>

record state =
  processedCount :: nat
  skippedCount :: nat
  errorCount :: nat
  totalItems :: nat
  processedArchive :: "string set"
  pending :: "string set"
  shutdownSignal :: nat
  archiveFile :: "string option"
  fsops :: "fs_op list"
  ids :: "string list"
  jobs :: "pc list"
  results :: "processingResult list"
  closed :: bool
  ctxCancelled :: bool
  out :: "log_line list"
  exit_code :: "nat option"

definition initial :: "string option \<Rightarrow> state" where
  "initial file =
     \<lparr>processedCount = 0, skippedCount = 0, errorCount = 0, totalItems = 0,
      processedArchive = {}, pending = {}, shutdownSignal = 0,
      archiveFile = file, fsops = [], ids = [], jobs = [], results = [],
      closed = False, ctxCancelled = False, out = [], exit_code = None\<rparr>"

section \<open>The archive (ledger)\<close>

text \<open>The loop of \<open>initArchive\<close> over the tokens of the scanner.\<close>

fun scan_loop :: "string list \<Rightarrow> string set \<Rightarrow> string set" where
  "scan_loop [] m = m"
| "scan_loop (text # rest) m =
     (let line = TrimSpace text
      in if line \<noteq> [] then scan_loop rest (insert line m) else scan_loop rest m)"

text \<open>
  \<open>initArchive openErr scanErr s\<close>. The two faults come from the environment:
  \<open>openErr\<close> is the error of \<open>os.OpenFile\<close>, if it fails; \<open>scanErr\<close> is the error the
  scanner reports (a read error, or a line too long for its buffer) together with the
  tokens it delivered before. Opening with \<open>O_RDONLY|O_CREATE\<close> creates an empty file
  when there is none.
\<close>

definition initArchive ::
  "string option \<Rightarrow> (string list \<times> string) option \<Rightarrow> state \<Rightarrow> string option \<times> state" where
  "initArchive openErr scanErr s =
     (let s1 = s\<lparr>processedArchive := {}\<rparr> in
      case openErr of
        Some e \<Rightarrow>
          (Some (''failed to open archive: '' @ e), s1\<lparr>fsops := fsops s1 @ [OpenRead False]\<rparr>)
      | None \<Rightarrow>
          (let content = (case archiveFile s1 of None \<Rightarrow> [] | Some c \<Rightarrow> c);
               s2 = s1\<lparr>archiveFile := Some content,
                       fsops := fsops s1 @ [OpenRead True, ScanFile]\<rparr>
           in case scanErr of
                Some (tokens, e) \<Rightarrow>
                  (Some (''archive read error: '' @ e),
                   s2\<lparr>processedArchive := scan_loop tokens {}\<rparr>)
              | None \<Rightarrow>
                  (None, s2\<lparr>processedArchive := scan_loop (ScanLines content) {}\<rparr>)))"

text \<open>
  The faults of \<open>appendToArchive\<close>: \<open>os.OpenFile\<close> fails, or \<open>fmt.Fprintln\<close> fails
  after writing the first \<open>n\<close> bytes of the line.
\<close>

datatype append_fault = NoFault | OpenFails string | WriteFails nat string

definition appendToArchive :: "append_fault \<Rightarrow> string \<Rightarrow> state \<Rightarrow> string option \<times> state" where
  "appendToArchive fault identifier s =
     (case fault of
        OpenFails e \<Rightarrow>
          (Some (''archive open failed: '' @ e), s\<lparr>fsops := fsops s @ [OpenAppend False]\<rparr>)
      | WriteFails n e \<Rightarrow>
          (let content = (case archiveFile s of None \<Rightarrow> [] | Some c \<Rightarrow> c);
               written = take n (identifier @ [CHR 0x0A])
           in (Some (''archive write failed: '' @ e),
               s\<lparr>archiveFile := Some (content @ written),
                 fsops := fsops s @ [OpenAppend True, WriteFile written]\<rparr>))
      | NoFault \<Rightarrow>
          (let content = (case archiveFile s of None \<Rightarrow> [] | Some c \<Rightarrow> c);
               written = identifier @ [CHR 0x0A]
           in (None,
               s\<lparr>archiveFile := Some (content @ written),
                 fsops := fsops s @ [OpenAppend True, WriteFile written],
                 processedArchive := insert identifier (processedArchive s)\<rparr>)))"

section \<open>The pending set\<close>

definition markPending :: "string \<Rightarrow> state \<Rightarrow> bool \<times> state" where
  "markPending identifier s =
     (if identifier \<in> pending s then (False, s)
      else (True, s\<lparr>pending := insert identifier (pending s)\<rparr>))"

definition unmarkPending :: "string \<Rightarrow> state \<Rightarrow> state" where
  "unmarkPending identifier s = s\<lparr>pending := pending s - {identifier}\<rparr>"

section \<open>Results and the summary\<close>

definition handleProcessingResult :: "processingResult \<Rightarrow> state \<Rightarrow> state" where
  "handleProcessingResult result s =
     (case ArchiveErr result of
        Some ae \<Rightarrow>
          s\<lparr>out := out s @ [LogArchiveError (ItemNumber result) (Identifier result) ae],
            errorCount := errorCount s + 1\<rparr>
      | None \<Rightarrow>
          (case Error result of
             Some e \<Rightarrow>
               if Contains e ''skipped''
               then s\<lparr>out := out s @ [LogSkipped (ItemNumber result) (Identifier result)],
                      skippedCount := skippedCount s + 1\<rparr>
               else s\<lparr>out := out s @ [LogFailed (ItemNumber result) (Identifier result) e],
                      errorCount := errorCount s + 1\<rparr>
           | None \<Rightarrow>
               s\<lparr>out := out s @ [LogSuccess (ItemNumber result) (Identifier result)],
                 processedCount := processedCount s + 1\<rparr>))"

fun dedup_loop :: "string list \<Rightarrow> string set \<Rightarrow> string list \<Rightarrow> string list" where
  "dedup_loop [] seen unique = unique"
| "dedup_loop (arg # args) seen unique =
     (if arg \<notin> seen then dedup_loop args (insert arg seen) (unique @ [arg])
      else dedup_loop args seen unique)"

definition deduplicateArgs :: "string list \<Rightarrow> string list" where
  "deduplicateArgs args = dedup_loop args {} []"

definition printSummary :: "bool \<Rightarrow> state \<Rightarrow> state" where
  "printSummary interrupted s =
     s\<lparr>out := out s @ [SummaryMsg interrupted (totalItems s) (processedCount s)
                          (skippedCount s) (errorCount s)]\<rparr>"

section \<open>The run: main and the goroutines, one atomic action at a time\<close>

text \<open>
  The start of \<open>main\<close> (lines 50 to 88), up to the launch of the goroutines.
  \<open>exeErr\<close> is the error of \<open>os.Executable\<close>, if it fails. \<open>log.Fatalf\<close> and
  \<open>os.Exit(1)\<close> end the process with exit code 1.
\<close>

record boot_env =
  exeErr :: "string option"
  openErr :: "string option"
  scanErr :: "(string list \<times> string) option"

definition fatal :: "string \<Rightarrow> state \<Rightarrow> state" where
  "fatal msg s = s\<lparr>out := out s @ [FatalMsg msg], exit_code := Some 1\<rparr>"

text \<open>
  The goroutines are started in a loop; a goroutine that has not been started yet
  behaves as one that has not been scheduled yet, so all of them are at their first
  program point when the run begins.
\<close>

definition launch :: "string list \<Rightarrow> state \<Rightarrow> state" where
  "launch args s =
     s\<lparr>out := out s @ [StartMsg (totalItems s)],
       ids := args, jobs := replicate (length args) AtBanner\<rparr>"

definition main_init :: "boot_env \<Rightarrow> string list \<Rightarrow> string option \<Rightarrow> state" where
  "main_init env osArgs file =
     (let s0 = initial file in
      case exeErr env of
        Some e \<Rightarrow> fatal (''FATAL: Could not determine executable path: '' @ e) s0
      | None \<Rightarrow>
          (case initArchive (openErr env) (scanErr env) s0 of
             (Some e, s1) \<Rightarrow> fatal (''FATAL: Archive initialization failed: '' @ e) s1
           | (None, s1) \<Rightarrow>
               (let args = deduplicateArgs osArgs;
                    s2 = s1\<lparr>totalItems := length args\<rparr>
                in if totalItems s2 = 0
                   then s2\<lparr>out := out s2 @ [UsageMsg], exit_code := Some 1\<rparr>
                   else launch args s2)))"

text \<open>
  What can happen next. \<open>EBanner\<close> to \<open>ESend\<close> are the atomic actions of goroutine
  \<open>i\<close> (item number \<open>i + 1\<close>): each critical section is one action. The outcome of the
  external command (\<open>None\<close> for success, or the text of its error) and the faults of
  the archive write come from the environment. \<open>EClose\<close> is the goroutine that waits
  for the wait group and closes the channel, \<open>ERecv\<close> one round of the loop of \<open>main\<close>,
  \<open>EFinish\<close> the end of \<open>main\<close> once the channel is closed and empty, and \<open>ESignal\<close>
  the delivery of SIGINT or SIGTERM to the process.
\<close>

datatype event =
    EBanner nat
  | EMark nat
  | ECheck nat
  | ECmd nat "string option"
  | EAppend nat append_fault
  | EUnmark nat
  | ESend nat
  | EClose
  | ERecv
  | EFinish
  | ESignal

definition new_result :: "state \<Rightarrow> nat \<Rightarrow> processingResult" where
  "new_result s i =
     \<lparr>Identifier = ids s ! i, ItemNumber = i + 1, Error = None, ArchiveErr = None\<rparr>"

definition at :: "state \<Rightarrow> nat \<Rightarrow> pc \<Rightarrow> bool" where
  "at s i p = (exit_code s = None \<and> i < length (jobs s) \<and> i < length (ids s) \<and> jobs s ! i = p)"

definition goto :: "nat \<Rightarrow> pc \<Rightarrow> state \<Rightarrow> state" where
  "goto i p s = s\<lparr>jobs := (jobs s)[i := p]\<rparr>"

fun step :: "event \<Rightarrow> state \<Rightarrow> state option" where
  "step (EBanner i) s =
     (if at s i AtBanner
      then Some (goto i AtMarkPending
                  (s\<lparr>out := out s @ [ItemBanner (i + 1) (totalItems s) (ids s ! i)]\<rparr>))
      else None)"
| "step (EMark i) s =
     (if at s i AtMarkPending
      then (case markPending (ids s ! i) s of
              (False, s') \<Rightarrow>
                Some (goto i (AtSend ((new_result s i)\<lparr>Error := Some ''duplicate in progress''\<rparr>)) s')
            | (True, s') \<Rightarrow> Some (goto i AtArchiveCheck s'))
      else None)"
| "step (ECheck i) s =
     (if at s i AtArchiveCheck
      then (if ids s ! i \<in> processedArchive s
            then Some (goto i (AtUnmark ((new_result s i)\<lparr>Error := Some ''skipped (archived)''\<rparr>)) s)
            else Some (goto i AtCmdRun s))
      else None)"
| "step (ECmd i outcome) s =
     (if at s i AtCmdRun
      then (case outcome of
              Some e \<Rightarrow>
                Some (goto i (AtUnmark ((new_result s i)\<lparr>Error := Some (''yt-dlp error: '' @ e)\<rparr>)) s)
            | None \<Rightarrow> Some (goto i AtAppend s))
      else None)"
| "step (EAppend i fault) s =
     (if at s i AtAppend
      then (case appendToArchive fault (ids s ! i) s of
              (err, s') \<Rightarrow> Some (goto i (AtUnmark ((new_result s i)\<lparr>ArchiveErr := err\<rparr>)) s'))
      else None)"
| "step (EUnmark i) s =
     (if exit_code s = None \<and> i < length (jobs s) \<and> i < length (ids s)
      then (case jobs s ! i of
              AtUnmark result \<Rightarrow> Some (goto i (AtSend result) (unmarkPending (ids s ! i) s))
            | _ \<Rightarrow> None)
      else None)"
| "step (ESend i) s =
     (if exit_code s = None \<and> i < length (jobs s) \<and> i < length (ids s)
         \<and> length (results s) < totalItems s
      then (case jobs s ! i of
              AtSend result \<Rightarrow> Some (goto i Returned (s\<lparr>results := results s @ [result]\<rparr>))
            | _ \<Rightarrow> None)
      else None)"
| "step EClose s =
     (if exit_code s = None \<and> \<not> closed s \<and> list_all (\<lambda>p. p = Returned) (jobs s)
      then Some (s\<lparr>closed := True\<rparr>)
      else None)"
| "step ERecv s =
     (if exit_code s = None
      then (case results s of
              [] \<Rightarrow> None
            | result # rest \<Rightarrow> Some (handleProcessingResult result (s\<lparr>results := rest\<rparr>)))
      else None)"
| "step EFinish s =
     (if exit_code s = None \<and> closed s \<and> results s = []
      then Some ((printSummary False s)\<lparr>ctxCancelled := True, exit_code := Some 0\<rparr>)
      else None)"
| "step ESignal s =
     (if exit_code s = None
      then Some (s\<lparr>shutdownSignal := (if shutdownSignal s < 1 then shutdownSignal s + 1
                                       else shutdownSignal s)\<rparr>)
      else None)"

fun run :: "event list \<Rightarrow> state \<Rightarrow> state option" where
  "run [] s = Some s"
| "run (e # es) s = (case step e s of None \<Rightarrow> None | Some s' \<Rightarrow> run es s')"

section \<open>Invariants of a run\<close>

text \<open>
  A goroutine owns its identifier in the pending set from the successful
  \<open>markPending\<close> until its deferred \<open>unmarkPending\<close> has run.
\<close>

fun owns :: "pc \<Rightarrow> bool" where
  "owns AtArchiveCheck = True"
| "owns AtCmdRun = True"
| "owns AtAppend = True"
| "owns (AtUnmark result) = True"
| "owns p = False"

definition pending_inv :: "state \<Rightarrow> bool" where
  "pending_inv s =
     (length (jobs s) = length (ids s)
      \<and> pending s = {ids s ! i |i. i < length (jobs s) \<and> owns (jobs s ! i)}
      \<and> (\<forall>i j. i < length (jobs s) \<and> j < length (jobs s) \<and> owns (jobs s ! i)
            \<and> owns (jobs s ! j) \<and> ids s ! i = ids s ! j \<longrightarrow> i = j))"

definition count_inv :: "state \<Rightarrow> bool" where
  "count_inv s =
     (length (jobs s) = totalItems s \<and> length (ids s) = totalItems s
      \<and> processedCount s + skippedCount s + errorCount s + length (results s)
          + length (filter (\<lambda>p. p \<noteq> Returned) (jobs s)) = totalItems s
      \<and> (closed s \<longrightarrow> list_all (\<lambda>p. p = Returned) (jobs s))
      \<and> (exit_code s \<noteq> None \<longrightarrow> exit_code s = Some 0 \<and> closed s \<and> results s = []))"

section \<open>Example runs\<close>

definition no_faults :: boot_env where
  "no_faults = \<lparr>exeErr = None, openErr = None, scanErr = None\<rparr>"

text \<open>
  A run on two items: the command succeeds for the first item, whose identifier is
  written to the archive, and fails for the second one.
\<close>

definition first_ok_second_fails :: "event list" where
  "first_ok_second_fails =
     [EBanner 0, EBanner 1, EMark 0, EMark 1, ECheck 1, ECheck 0,
      ECmd 1 (Some ''exit status 1''), ECmd 0 None, EUnmark 1, ESend 1,
      EAppend 0 NoFault, ERecv, EUnmark 0, ESend 0, EClose, ERecv, EFinish]"

text \<open>
  A goroutine that is past its pending-set work: only the send of its result is left,
  or it has returned.
\<close>

fun reporting :: "pc \<Rightarrow> bool" where
  "reporting (AtSend result) = True"
| "reporting Returned = True"
| "reporting p = False"

text \<open>
  Two goroutines started for the same identifier (the input deduplication bypassed),
  the first one having marked the identifier and run up to its deferred calls.
\<close>

definition two_jobs_same_id :: state where
  "two_jobs_same_id = launch [''x'', ''x''] ((initial None)\<lparr>totalItems := 2\<rparr>)"

definition first_owns :: "event list" where
  "first_owns = [EBanner 0, EBanner 1, EMark 0, ECheck 0, ECmd 0 None, EAppend 0 NoFault]"

definition both_return :: "event list" where
  "both_return = first_owns @ [EMark 1, ESend 1, EUnmark 0, ESend 0]"

text \<open>The \<open>result\<close> a goroutine holds once it runs its deferred calls.\<close>

fun pc_result :: "pc \<Rightarrow> processingResult option" where
  "pc_result (AtUnmark result) = Some result"
| "pc_result (AtSend result) = Some result"
| "pc_result p = None"

text \<open>
  No goroutine resolved to the outcome of a rejected \<open>markPending\<close>: the error
  \<open>duplicate in progress\<close> is in no held result, in no result of the channel and in
  no log line.
\<close>

definition no_duplicate_outcome :: "state \<Rightarrow> bool" where
  "no_duplicate_outcome s =
     ((\<forall>p \<in> set (jobs s). \<forall>r. pc_result p = Some r \<longrightarrow> Error r \<noteq> Some ''duplicate in progress'')
      \<and> (\<forall>r \<in> set (results s). Error r \<noteq> Some ''duplicate in progress'')
      \<and> (\<forall>n x. LogFailed n x ''duplicate in progress'' \<notin> set (out s)))"

text \<open>A run on one item whose command succeeds.\<close>

definition single_item_ok :: "event list" where
  "single_item_ok =
     [EBanner 0, EMark 0, ECheck 0, ECmd 0 None, EAppend 0 NoFault, EUnmark 0, ESend 0,
      EClose, ERecv, EFinish]"

text \<open>
  A goroutine that runs the command or is about to append works on an identifier the
  in-memory archive does not hold.
\<close>

definition append_fresh :: "state \<Rightarrow> bool" where
  "append_fresh s =
     (\<forall>i < length (jobs s). jobs s ! i = AtCmdRun \<or> jobs s ! i = AtAppend \<longrightarrow>
        ids s ! i \<notin> processedArchive s)"

text \<open>The archive file holds one line, and it has been loaded.\<close>

definition loaded_a :: state where
  "loaded_a = snd (initArchive None None (initial (Some ''a\<newline>'')))"

text \<open>
  A run on one item during which a signal arrives while the command runs; the command
  then ends with an error.
\<close>

definition signal_during_command :: "event list" where
  "signal_during_command = [EBanner 0, EMark 0, ECheck 0, ESignal]"

definition command_fails_to_end :: "event list" where
  "command_fails_to_end =
     [ECmd 0 (Some ''signal: interrupt''), EUnmark 0, ESend 0, EClose, ERecv, EFinish]"

definition open_denied :: boot_env where
  "open_denied = \<lparr>exeErr = None, openErr = Some ''permission denied'', scanErr = None\<rparr>"

section \<open>Input deduplication\<close>

lemma dedup_loop_nths:
  "dedup_loop args seen unique =
     unique @ nths args {i. args ! i \<notin> seen \<union> set (take i args)}"
proof (induction args arbitrary: seen unique)
  case Nil
  then show ?case by simp
next
  case (Cons a args)
  have split: "nths (a # args) {i. (a # args) ! i \<notin> seen \<union> set (take i (a # args))} =
      (if a \<in> seen then [] else [a]) @
      nths args {j. args ! j \<notin> insert a seen \<union> set (take j args)}"
    by (auto simp: nths_Cons intro!: arg_cong [where f = "nths args"])
  show ?case
  proof (cases "a \<in> seen")
    case True
    then have "insert a seen = seen" by auto
    with True show ?thesis by (simp only: split dedup_loop.simps Cons.IH) simp
  next
    case False
    then show ?thesis by (simp only: split dedup_loop.simps Cons.IH) simp
  qed
qed

lemma dedup_loop_set: "set (dedup_loop args seen unique) = set unique \<union> (set args - seen)"
  by (induction args arbitrary: seen unique) auto

lemma dedup_loop_distinct:
  "distinct unique \<Longrightarrow> set unique \<subseteq> seen \<Longrightarrow> distinct (dedup_loop args seen unique)"
proof (induction args arbitrary: seen unique)
  case Nil
  then show ?case by simp
next
  case (Cons a args)
  show ?case
  proof (cases "a \<in> seen")
    case True
    then show ?thesis using Cons by simp
  next
    case False
    have "distinct (unique @ [a])" using Cons.prems False by auto
    moreover have "set (unique @ [a]) \<subseteq> insert a seen" using Cons.prems by auto
    ultimately have "distinct (dedup_loop args (insert a seen) (unique @ [a]))"
      by (rule Cons.IH)
    then show ?thesis using False by simp
  qed
qed

lemma main_init_ids:
  "ids (main_init env osArgs file) =
     (if exit_code (main_init env osArgs file) = None then deduplicateArgs osArgs else [])"
  by (auto simp: main_init_def initArchive_def fatal_def launch_def initial_def Let_def
        split: option.splits prod.splits)

text \<open>
  C9. For every input sequence, \<open>deduplicateArgs\<close> returns the subsequence of first
  occurrences: the element at position \<open>i\<close> is kept exactly when it does not occur at
  an earlier position, so the result has no duplicates, has the elements of the input
  and keeps their order. The goroutines are created from this list only: the
  identifiers of the jobs are the deduplicated arguments (or there is no job at all,
  when the start of \<open>main\<close> ends the process).
\<close>

theorem deduplicateArgs_first_occurrences:
  "deduplicateArgs args = nths args {i. args ! i \<notin> set (take i args)}
   \<and> distinct (deduplicateArgs args)
   \<and> set (deduplicateArgs args) = set args
   \<and> subseq (deduplicateArgs args) args
   \<and> ids (main_init env args file) =
       (if exit_code (main_init env args file) = None then deduplicateArgs args else [])"
proof -
  have a: "deduplicateArgs args = nths args {i. args ! i \<notin> set (take i args)}"
    by (simp add: deduplicateArgs_def dedup_loop_nths)
  have b: "distinct (deduplicateArgs args)"
    by (simp add: deduplicateArgs_def dedup_loop_distinct)
  have c: "set (deduplicateArgs args) = set args"
    by (simp add: deduplicateArgs_def dedup_loop_set)
  have d: "subseq (deduplicateArgs args) args"
    unfolding a by (auto simp: subseq_conv_nths)
  from a b c d main_init_ids show ?thesis by blast
qed

section \<open>Every result is counted once\<close>

lemma filter_update_length:
  "i < length xs \<Longrightarrow>
     length (filter P (xs[i := v])) + (if P (xs ! i) then 1 else 0) =
     length (filter P xs) + (if P v then 1 else 0)"
proof (induction xs arbitrary: i)
  case Nil
  then show ?case by simp
next
  case (Cons x xs)
  show ?case
  proof (cases i)
    case 0
    then show ?thesis by simp
  next
    case (Suc k)
    with Cons.prems have "k < length xs" by simp
    from Cons.IH [OF this] Suc show ?thesis by simp
  qed
qed

lemma leave_Returned:
  assumes "i < length xs" "xs ! i \<noteq> Returned"
  shows "Suc (length (filter (\<lambda>p. p \<noteq> Returned) (xs[i := Returned]))) =
         length (filter (\<lambda>p. p \<noteq> Returned) xs)"
  using filter_update_length [OF assms(1), of "\<lambda>p. p \<noteq> Returned" Returned] assms(2) by simp

lemma stay_running:
  assumes "i < length xs" "xs ! i \<noteq> Returned" "v \<noteq> Returned"
  shows "length (filter (\<lambda>p. p \<noteq> Returned) (xs[i := v])) =
         length (filter (\<lambda>p. p \<noteq> Returned) xs)"
  using filter_update_length [OF assms(1), of "\<lambda>p. p \<noteq> Returned" v] assms(2,3) by simp

lemma all_Returned_update:
  "i < length xs \<Longrightarrow> xs ! i \<noteq> Returned \<Longrightarrow> \<not> list_all (\<lambda>p. p = Returned) xs"
  by (auto simp: list_all_length)

lemma handle_counts:
  "processedCount (handleProcessingResult r s) + skippedCount (handleProcessingResult r s)
     + errorCount (handleProcessingResult r s)
   = Suc (processedCount s + skippedCount s + errorCount s)"
  by (simp add: handleProcessingResult_def split: option.splits)

lemma handle_frame:
  "jobs (handleProcessingResult r s) = jobs s"
  "ids (handleProcessingResult r s) = ids s"
  "results (handleProcessingResult r s) = results s"
  "closed (handleProcessingResult r s) = closed s"
  "exit_code (handleProcessingResult r s) = exit_code s"
  "totalItems (handleProcessingResult r s) = totalItems s"
  "pending (handleProcessingResult r s) = pending s"
  "processedArchive (handleProcessingResult r s) = processedArchive s"
  by (simp_all add: handleProcessingResult_def split: option.splits)

lemma append_frame:
  "jobs (snd (appendToArchive f x s)) = jobs s"
  "ids (snd (appendToArchive f x s)) = ids s"
  "results (snd (appendToArchive f x s)) = results s"
  "closed (snd (appendToArchive f x s)) = closed s"
  "exit_code (snd (appendToArchive f x s)) = exit_code s"
  "totalItems (snd (appendToArchive f x s)) = totalItems s"
  "pending (snd (appendToArchive f x s)) = pending s"
  "processedCount (snd (appendToArchive f x s)) = processedCount s"
  "skippedCount (snd (appendToArchive f x s)) = skippedCount s"
  "errorCount (snd (appendToArchive f x s)) = errorCount s"
  by (simp_all add: appendToArchive_def Let_def split: append_fault.splits)

lemma step_count_inv:
  assumes "count_inv s" "step e s = Some s'"
  shows "count_inv s'"
proof (cases e)
  case (EBanner i)
  with assms show ?thesis
    by (auto simp: count_inv_def at_def goto_def stay_running all_Returned_update split: if_splits)
next
  case (EMark i)
  with assms show ?thesis
    by (auto simp: count_inv_def at_def goto_def markPending_def stay_running all_Returned_update
        split: if_splits)
next
  case (ECheck i)
  with assms show ?thesis
    by (auto simp: count_inv_def at_def goto_def stay_running all_Returned_update split: if_splits)
next
  case (ECmd i outcome)
  with assms show ?thesis
    by (auto simp: count_inv_def at_def goto_def stay_running all_Returned_update
        split: if_splits option.splits)
next
  case (EAppend i fault)
  with assms show ?thesis
    by (cases "appendToArchive fault (ids s ! i) s")
       (use append_frame [of fault "ids s ! i" s] in
        \<open>auto simp: count_inv_def at_def goto_def stay_running all_Returned_update
          split: if_splits\<close>)
next
  case (EUnmark i)
  with assms show ?thesis
    by (auto simp: count_inv_def goto_def unmarkPending_def stay_running all_Returned_update
        split: if_splits pc.splits)
next
  case (ESend i)
  with assms show ?thesis
    by (auto simp: count_inv_def goto_def all_Returned_update
        simp flip: leave_Returned [of i "jobs s"]
        split: if_splits pc.splits)
next
  case EClose
  with assms show ?thesis
    by (auto simp: count_inv_def split: if_splits)
next
  case ERecv
  with assms show ?thesis
    using handle_counts [of "hd (results s)" "s\<lparr>results := tl (results s)\<rparr>"]
    by (auto simp: count_inv_def handle_frame split: if_splits list.splits)
next
  case EFinish
  with assms show ?thesis
    by (auto simp: count_inv_def printSummary_def split: if_splits)
next
  case ESignal
  with assms show ?thesis
    by (auto simp: count_inv_def split: if_splits)
qed

lemma step_stopped: "exit_code s \<noteq> None \<Longrightarrow> step e s = None"
  by (cases e) (auto simp: at_def)

lemma run_stopped: "exit_code s \<noteq> None \<Longrightarrow> run evs s = Some s' \<Longrightarrow> evs = [] \<and> s' = s"
  by (cases evs) (auto simp: step_stopped)

lemma run_count_inv: "count_inv s \<Longrightarrow> run evs s = Some s' \<Longrightarrow> count_inv s'"
proof (induction evs arbitrary: s)
  case Nil
  then show ?case by simp
next
  case (Cons e evs)
  then show ?case by (auto split: option.splits dest: step_count_inv)
qed

lemma step_send_count:
  assumes "step e s = Some s'" "i < length (jobs s)"
  shows "length (jobs s') = length (jobs s) \<and>
         (if e = ESend i then 1 else 0) + (if jobs s ! i = Returned then 1 else 0) =
         (if jobs s' ! i = Returned then 1 else (0::nat))"
proof (cases e)
  case (EAppend j fault)
  with assms show ?thesis
    by (cases "appendToArchive fault (ids s ! j) s")
       (use append_frame [of fault "ids s ! j" s] in
        \<open>auto simp: at_def goto_def nth_list_update split: if_splits\<close>)
qed (use assms in \<open>auto simp: at_def goto_def markPending_def unmarkPending_def handle_frame
       printSummary_def nth_list_update split: if_splits option.splits pc.splits list.splits\<close>)

lemma run_send_count:
  "run evs s = Some s' \<Longrightarrow> i < length (jobs s) \<Longrightarrow>
     length (jobs s') = length (jobs s) \<and>
     count_list evs (ESend i) + (if jobs s ! i = Returned then 1 else 0) =
     (if jobs s' ! i = Returned then 1 else 0)"
proof (induction evs arbitrary: s)
  case Nil
  then show ?case by simp
next
  case (Cons e evs)
  from Cons.prems obtain t where t: "step e s = Some t" "run evs t = Some s'"
    by (auto split: option.splits)
  from step_send_count [OF t(1) Cons.prems(2)]
  have len: "length (jobs t) = length (jobs s)"
    and one: "(if e = ESend i then 1 else 0) + (if jobs s ! i = Returned then 1 else 0) =
         (if jobs t ! i = Returned then 1 else (0::nat))" by simp_all
  from Cons.prems(2) len have "i < length (jobs t)" by simp
  from Cons.IH [OF t(2) this] len one show ?case by (auto split: if_splits)
qed

lemma step_recv_count:
  assumes "step e s = Some s'"
  shows "(if e = ERecv then 1 else 0) + (processedCount s + skippedCount s + errorCount s) =
         processedCount s' + skippedCount s' + errorCount s'"
proof (cases e)
  case (EAppend j fault)
  with assms show ?thesis
    by (cases "appendToArchive fault (ids s ! j) s")
       (use append_frame [of fault "ids s ! j" s] in
        \<open>auto simp: at_def goto_def split: if_splits\<close>)
next
  case ERecv
  with assms show ?thesis
    using handle_counts [of "hd (results s)" "s\<lparr>results := tl (results s)\<rparr>"]
    by (auto split: if_splits list.splits)
qed (use assms in \<open>auto simp: at_def goto_def markPending_def unmarkPending_def
       printSummary_def split: if_splits option.splits pc.splits\<close>)

lemma run_recv_count:
  "run evs s = Some s' \<Longrightarrow>
     count_list evs ERecv + (processedCount s + skippedCount s + errorCount s) =
     processedCount s' + skippedCount s' + errorCount s'"
proof (induction evs arbitrary: s)
  case Nil
  then show ?case by simp
next
  case (Cons e evs)
  from Cons.prems obtain t where t: "step e s = Some t" "run evs t = Some s'"
    by (auto split: option.splits)
  from step_recv_count [OF t(1)] Cons.IH [OF t(2)] show ?case by (auto split: if_splits)
qed

lemma handle_one_counter:
  "(processedCount (handleProcessingResult r t), skippedCount (handleProcessingResult r t),
    errorCount (handleProcessingResult r t))
   \<in> {(Suc (processedCount t), skippedCount t, errorCount t),
       (processedCount t, Suc (skippedCount t), errorCount t),
       (processedCount t, skippedCount t, Suc (errorCount t))}"
  by (simp add: handleProcessingResult_def split: option.splits)

text \<open>The start of main either ends the process with code 1 or launches the jobs.\<close>

lemma main_init_cases:
  "(exit_code (main_init env osArgs file) = Some 1
      \<and> jobs (main_init env osArgs file) = []
      \<and> totalItems (main_init env osArgs file) = 0
      \<and> processedCount (main_init env osArgs file) = 0
      \<and> skippedCount (main_init env osArgs file) = 0
      \<and> errorCount (main_init env osArgs file) = 0)
   \<or> (exit_code (main_init env osArgs file) = None
      \<and> count_inv (main_init env osArgs file)
      \<and> ids (main_init env osArgs file) = deduplicateArgs osArgs
      \<and> jobs (main_init env osArgs file) = replicate (length (deduplicateArgs osArgs)) AtBanner
      \<and> deduplicateArgs osArgs \<noteq> []
      \<and> pending (main_init env osArgs file) = {}
      \<and> processedCount (main_init env osArgs file) = 0
      \<and> skippedCount (main_init env osArgs file) = 0
      \<and> errorCount (main_init env osArgs file) = 0)"
  by (auto simp: main_init_def initArchive_def fatal_def launch_def initial_def Let_def
        count_inv_def split: option.splits prod.splits)

lemma first_ok_second_fails_final:
  "map_option (\<lambda>s. (exit_code s, totalItems s, processedCount s, skippedCount s, errorCount s,
                     archiveFile s, pending s))
     (run first_ok_second_fails (main_init no_faults [''a'', ''a'', ''b''] None))
   = Some (Some 0, 2, 1, 0, 1, Some ''a\<newline>'', {})"
  by code_simp

text \<open>
  C1. Whatever the arguments, the archive file, the faults and the interleaving: once
  the process has ended, the number of submitted items is the sum of the three
  counters. When the run reached its summary, every goroutine has sent its result
  exactly once (one \<open>ESend i\<close> for every item \<open>i\<close>), \<open>main\<close> has received as many
  results as there are items, and \<open>handleProcessingResult\<close> adds one to exactly one of
  the three counters for each result.
\<close>

theorem submitted_equals_counted:
  assumes "run evs (main_init env osArgs file) = Some s" and "exit_code s \<noteq> None"
  shows "totalItems s = processedCount s + skippedCount s + errorCount s
     \<and> length (jobs s) = totalItems s
     \<and> (\<forall>i < totalItems s. count_list evs (ESend i) = 1)
     \<and> count_list evs ERecv = totalItems s
     \<and> (processedCount (handleProcessingResult r t), skippedCount (handleProcessingResult r t),
         errorCount (handleProcessingResult r t))
        \<in> {(Suc (processedCount t), skippedCount t, errorCount t),
            (processedCount t, Suc (skippedCount t), errorCount t),
            (processedCount t, skippedCount t, Suc (errorCount t))}"
proof -
  let ?s0 = "main_init env osArgs file"
  from main_init_cases [of env osArgs "file"]
  show ?thesis
  proof (elim disjE conjE)
    assume stop: "exit_code ?s0 = Some 1" and z: "jobs ?s0 = []" "totalItems ?s0 = 0"
      "processedCount ?s0 = 0" "skippedCount ?s0 = 0" "errorCount ?s0 = 0"
    from stop have "exit_code ?s0 \<noteq> None" by simp
    from run_stopped [OF this assms(1)] have "evs = []" "s = ?s0" by simp_all
    with z handle_one_counter [of r t] show ?thesis by simp
  next
    assume go: "exit_code ?s0 = None" "count_inv ?s0"
      "jobs ?s0 = replicate (length (deduplicateArgs osArgs)) AtBanner"
      and z: "processedCount ?s0 = 0" "skippedCount ?s0 = 0" "errorCount ?s0 = 0"
    from run_count_inv [OF go(2) assms(1)] have inv: "count_inv s" .
    with assms(2) have fin: "closed s" "results s = []" "list_all (\<lambda>p. p = Returned) (jobs s)"
      and len: "length (jobs s) = totalItems s"
      and sum: "processedCount s + skippedCount s + errorCount s + length (results s)
          + length (filter (\<lambda>p. p \<noteq> Returned) (jobs s)) = totalItems s"
      by (auto simp: count_inv_def)
    from fin(3) have "filter (\<lambda>p. p \<noteq> Returned) (jobs s) = []"
      by (auto simp: list_all_iff filter_empty_conv)
    with sum fin(2) have total: "totalItems s = processedCount s + skippedCount s + errorCount s"
      by simp
    have sends: "count_list evs (ESend i) = 1" if "i < totalItems s" for i
    proof -
      from run_send_count [of evs ?s0 s 0] assms(1)
      have same: "length (jobs ?s0) = length (jobs s) \<or> jobs ?s0 = []"
        by (cases "jobs ?s0") auto
      have l0: "length (jobs ?s0) = length (jobs s)"
      proof (cases "jobs ?s0 = []")
        case True
        with go(3) have "deduplicateArgs osArgs = []" by simp
        with main_init_cases [of env osArgs "file"] go(1) show ?thesis by auto
      next
        case False
        with same show ?thesis by simp
      qed
      with that len have i: "i < length (jobs ?s0)" by simp
      from run_send_count [OF assms(1) i] go(3) i fin(3) l0
      show ?thesis by (auto simp: list_all_length split: if_splits)
    qed
    from run_recv_count [OF assms(1)] z total have "count_list evs ERecv = totalItems s"
      by simp
    with total len sends handle_one_counter [of r t] show ?thesis by blast
  qed
qed


theorem submitted_equals_counted_witness:
  "\<exists>s. run first_ok_second_fails (main_init no_faults [''a'', ''a'', ''b''] None) = Some s
     \<and> exit_code s = Some 0
     \<and> totalItems s = processedCount s + skippedCount s + errorCount s
     \<and> totalItems s = 2 \<and> processedCount s = 1 \<and> skippedCount s = 0 \<and> errorCount s = 1
     \<and> count_list first_ok_second_fails (ESend 0) = 1
     \<and> count_list first_ok_second_fails (ESend 1) = 1
     \<and> count_list first_ok_second_fails ERecv = 2"
proof -
  from first_ok_second_fails_final obtain s where
    s: "run first_ok_second_fails (main_init no_faults [''a'', ''a'', ''b''] None) = Some s"
    and v: "exit_code s = Some 0" "totalItems s = 2" "processedCount s = 1"
      "skippedCount s = 0" "errorCount s = 1"
    by (cases "run first_ok_second_fails (main_init no_faults [''a'', ''a'', ''b''] None)") auto
  from v(1) have e: "exit_code s \<noteq> None" by simp
  from submitted_equals_counted [OF s e] v
  have "totalItems s = processedCount s + skippedCount s + errorCount s"
    and "count_list first_ok_second_fails (ESend 0) = 1"
    and "count_list first_ok_second_fails (ESend 1) = 1"
    and "count_list first_ok_second_fails ERecv = 2"
    by simp_all
  with s v show ?thesis by blast
qed

section \<open>The pending set is held by its owners\<close>

lemma pending_invI:
  assumes "length (jobs s) = length (ids s)"
    and "\<And>x. x \<in> pending s \<longleftrightarrow> (\<exists>i<length (jobs s). ids s ! i = x \<and> owns (jobs s ! i))"
    and "\<And>i j. i < length (jobs s) \<Longrightarrow> j < length (jobs s) \<Longrightarrow> owns (jobs s ! i) \<Longrightarrow>
           owns (jobs s ! j) \<Longrightarrow> ids s ! i = ids s ! j \<Longrightarrow> i = j"
  shows "pending_inv s"
proof -
  have "pending s = {ids s ! i |i. i < length (jobs s) \<and> owns (jobs s ! i)}"
    by (auto simp: assms(2))
  moreover have "\<forall>i j. i < length (jobs s) \<and> j < length (jobs s) \<and> owns (jobs s ! i)
            \<and> owns (jobs s ! j) \<and> ids s ! i = ids s ! j \<longrightarrow> i = j"
    using assms(3) by blast
  ultimately show ?thesis unfolding pending_inv_def using assms(1) by simp
qed

lemma pending_inv_len: "pending_inv s \<Longrightarrow> length (jobs s) = length (ids s)"
  by (simp add: pending_inv_def)

lemma pending_inv_mem:
  assumes "pending_inv s"
  shows "x \<in> pending s \<longleftrightarrow> (\<exists>i<length (jobs s). ids s ! i = x \<and> owns (jobs s ! i))"
proof -
  from assms have "pending s = {ids s ! i |i. i < length (jobs s) \<and> owns (jobs s ! i)}"
    by (simp add: pending_inv_def)
  then show ?thesis by auto
qed

lemma pending_inv_unique:
  "pending_inv s \<Longrightarrow> i < length (jobs s) \<Longrightarrow> j < length (jobs s) \<Longrightarrow> owns (jobs s ! i) \<Longrightarrow>
     owns (jobs s ! j) \<Longrightarrow> ids s ! i = ids s ! j \<Longrightarrow> i = j"
  by (simp add: pending_inv_def)

lemma pending_inv_cong:
  assumes inv: "pending_inv s" and len: "length (jobs t) = length (jobs s)"
    and ids: "ids t = ids s" and pen: "pending t = pending s"
    and own: "\<And>j. j < length (jobs s) \<Longrightarrow> owns (jobs t ! j) = owns (jobs s ! j)"
  shows "pending_inv t"
proof (rule pending_invI)
  show "length (jobs t) = length (ids t)"
    using pending_inv_len [OF inv] len ids by simp
next
  fix x
  show "x \<in> pending t \<longleftrightarrow> (\<exists>i<length (jobs t). ids t ! i = x \<and> owns (jobs t ! i))"
    using pending_inv_mem [OF inv, of x] len ids pen own by auto
next
  fix i j
  assume "i < length (jobs t)" "j < length (jobs t)" "owns (jobs t ! i)" "owns (jobs t ! j)"
    "ids t ! i = ids t ! j"
  then show "i = j"
    using pending_inv_unique [OF inv, of i j] len ids own by auto
qed

text \<open>A step of goroutine i that keeps the pending set and does not change whether i owns.\<close>

lemma pending_inv_goto_same:
  assumes "pending_inv s" "i < length (jobs s)" "owns p = owns (jobs s ! i)"
    "pending t = pending s" "ids t = ids s" "jobs t = jobs s"
  shows "pending_inv (goto i p t)"
proof (rule pending_inv_cong [OF assms(1)])
  fix j assume "j < length (jobs s)"
  then show "owns (jobs (goto i p t) ! j) = owns (jobs s ! j)"
    using assms by (cases "j = i") (simp_all add: goto_def)
qed (use assms in \<open>simp_all add: goto_def\<close>)

lemma pending_inv_acquire:
  assumes inv: "pending_inv s" and i: "i < length (jobs s)"
    and free: "ids s ! i \<notin> pending s"
  shows "pending_inv (goto i AtArchiveCheck (s\<lparr>pending := insert (ids s ! i) (pending s)\<rparr>))"
    (is "pending_inv ?t")
proof (rule pending_invI)
  have jt: "jobs ?t = (jobs s)[i := AtArchiveCheck]" and it: "ids ?t = ids s"
    and pt: "pending ?t = insert (ids s ! i) (pending s)"
    by (simp_all add: goto_def)
  have nobody: "\<not> owns (jobs s ! j)" if "j < length (jobs s)" "ids s ! j = ids s ! i" for j
    using pending_inv_mem [OF inv, of "ids s ! i"] free that by auto
  show "length (jobs ?t) = length (ids ?t)"
    using pending_inv_len [OF inv] by (simp add: goto_def)
  show "x \<in> pending ?t \<longleftrightarrow> (\<exists>k<length (jobs ?t). ids ?t ! k = x \<and> owns (jobs ?t ! k))" for x
  proof (cases "x = ids s ! i")
    case True
    then show ?thesis using i by (auto simp: jt it pt)
  next
    case False
    have eq: "(jobs s)[i := AtArchiveCheck] ! k = jobs s ! k" if "ids s ! k = x" for k
      using that False by (cases "k = i") auto
    have "(\<exists>k<length (jobs s). ids s ! k = x \<and> owns ((jobs s)[i := AtArchiveCheck] ! k))
       \<longleftrightarrow> (\<exists>k<length (jobs s). ids s ! k = x \<and> owns (jobs s ! k))"
      by (auto simp: eq)
    with False pending_inv_mem [OF inv, of x] show ?thesis by (simp add: jt it pt)
  qed
  show "k = j" if "k < length (jobs ?t)" "j < length (jobs ?t)" "owns (jobs ?t ! k)"
    "owns (jobs ?t ! j)" "ids ?t ! k = ids ?t ! j" for k j
  proof (cases "k = i \<or> j = i")
    case True
    show ?thesis
    proof (rule ccontr)
      assume ne: "k \<noteq> j"
      from True ne that nobody [of k] nobody [of j] show False
        by (auto simp: jt it nth_list_update split: if_splits)
    qed
  next
    case False
    with that pending_inv_unique [OF inv, of k j] show ?thesis
      by (simp add: jt it)
  qed
qed

lemma pending_inv_release:
  assumes inv: "pending_inv s" and i: "i < length (jobs s)" and own: "owns (jobs s ! i)"
    and p: "\<not> owns p"
  shows "pending_inv (goto i p (unmarkPending (ids s ! i) s))" (is "pending_inv ?t")
proof (rule pending_invI)
  have jt: "jobs ?t = (jobs s)[i := p]" and it: "ids ?t = ids s"
    and pt: "pending ?t = pending s - {ids s ! i}"
    by (simp_all add: goto_def unmarkPending_def)
  have only: "j = i" if "j < length (jobs s)" "ids s ! j = ids s ! i" "owns (jobs s ! j)" for j
    using pending_inv_unique [OF inv that(1) i that(3) own that(2)] .
  show "length (jobs ?t) = length (ids ?t)"
    using pending_inv_len [OF inv] by (simp add: jt it)
  show "x \<in> pending ?t \<longleftrightarrow> (\<exists>k<length (jobs ?t). ids ?t ! k = x \<and> owns (jobs ?t ! k))" for x
  proof (cases "x = ids s ! i")
    case True
    have "\<not> (\<exists>k<length (jobs s). ids s ! k = ids s ! i \<and> owns ((jobs s)[i := p] ! k))"
      using only p i by (auto simp: nth_list_update split: if_splits)
    with True show ?thesis by (simp add: jt it pt)
  next
    case False
    have eq: "(jobs s)[i := p] ! k = jobs s ! k" if "ids s ! k = x" for k
      using that False by (cases "k = i") auto
    have "(\<exists>k<length (jobs s). ids s ! k = x \<and> owns ((jobs s)[i := p] ! k))
       \<longleftrightarrow> (\<exists>k<length (jobs s). ids s ! k = x \<and> owns (jobs s ! k))"
      by (auto simp: eq)
    with False pending_inv_mem [OF inv, of x] show ?thesis by (simp add: jt it pt)
  qed
  show "k = j" if "k < length (jobs ?t)" "j < length (jobs ?t)" "owns (jobs ?t ! k)"
    "owns (jobs ?t ! j)" "ids ?t ! k = ids ?t ! j" for k j
  proof -
    from that p have "k \<noteq> i" "j \<noteq> i" by (auto simp: jt)
    with that pending_inv_unique [OF inv, of k j] show ?thesis by (simp add: jt it)
  qed
qed

lemma step_pending_inv:
  assumes inv: "pending_inv s" and st: "step e s = Some s'"
  shows "pending_inv s'"
proof (cases e)
  case (EBanner i)
  with st have a: "at s i AtBanner"
    and s': "s' = goto i AtMarkPending
        (s\<lparr>out := out s @ [ItemBanner (i + 1) (totalItems s) (ids s ! i)]\<rparr>)"
    by (auto split: if_splits)
  from a show ?thesis unfolding s'
    by (intro pending_inv_goto_same [OF inv]) (simp_all add: at_def)
next
  case (EMark i)
  with st have a: "at s i AtMarkPending" by (auto split: if_splits)
  show ?thesis
  proof (cases "ids s ! i \<in> pending s")
    case True
    with st EMark a obtain r where s': "s' = goto i (AtSend r) s"
      by (auto simp: markPending_def)
    from a show ?thesis unfolding s'
      by (intro pending_inv_goto_same [OF inv]) (simp_all add: at_def)
  next
    case False
    with st EMark a
    have s': "s' = goto i AtArchiveCheck (s\<lparr>pending := insert (ids s ! i) (pending s)\<rparr>)"
      by (auto simp: markPending_def)
    from a False show ?thesis unfolding s'
      by (intro pending_inv_acquire [OF inv]) (simp_all add: at_def)
  qed
next
  case (ECheck i)
  with st have a: "at s i AtArchiveCheck" by (auto split: if_splits)
  from st ECheck a obtain p where s': "s' = goto i p s" and p: "owns p"
    by (auto split: if_splits)
  from a p show ?thesis unfolding s'
    by (intro pending_inv_goto_same [OF inv]) (simp_all add: at_def)
next
  case (ECmd i outcome)
  with st have a: "at s i AtCmdRun" by (auto split: if_splits)
  from st ECmd a obtain p where s': "s' = goto i p s" and p: "owns p"
    by (auto split: if_splits option.splits)
  from a p show ?thesis unfolding s'
    by (intro pending_inv_goto_same [OF inv]) (simp_all add: at_def)
next
  case (EAppend i fault)
  with st have a: "at s i AtAppend" by (auto split: if_splits)
  from st EAppend a obtain r where
    s': "s' = goto i (AtUnmark r) (snd (appendToArchive fault (ids s ! i) s))"
    by (cases "appendToArchive fault (ids s ! i) s") auto
  from a show ?thesis unfolding s'
    by (intro pending_inv_goto_same [OF inv]) (simp_all add: at_def append_frame)
next
  case (EUnmark i)
  with st obtain r where i: "i < length (jobs s)" and r: "jobs s ! i = AtUnmark r"
    and s': "s' = goto i (AtSend r) (unmarkPending (ids s ! i) s)"
    by (auto split: if_splits pc.splits)
  from i r show ?thesis unfolding s'
    by (intro pending_inv_release [OF inv]) simp_all
next
  case (ESend i)
  with st obtain r where i: "i < length (jobs s)" and r: "jobs s ! i = AtSend r"
    and s': "s' = goto i Returned (s\<lparr>results := results s @ [r]\<rparr>)"
    by (auto split: if_splits pc.splits)
  from i r show ?thesis unfolding s'
    by (intro pending_inv_goto_same [OF inv]) simp_all
next
  case EClose
  with st have "s' = s\<lparr>closed := True\<rparr>" by (auto split: if_splits)
  then show ?thesis by (intro pending_inv_cong [OF inv]) simp_all
next
  case ERecv
  with st obtain r rest where "s' = handleProcessingResult r (s\<lparr>results := rest\<rparr>)"
    by (auto split: if_splits list.splits)
  then show ?thesis by (intro pending_inv_cong [OF inv]) (simp_all add: handle_frame)
next
  case EFinish
  with st have "s' = (printSummary False s)\<lparr>ctxCancelled := True, exit_code := Some 0\<rparr>"
    by (auto split: if_splits)
  then show ?thesis by (intro pending_inv_cong [OF inv]) (simp_all add: printSummary_def)
next
  case ESignal
  with st have "s' = s\<lparr>shutdownSignal :=
      (if shutdownSignal s < 1 then shutdownSignal s + 1 else shutdownSignal s)\<rparr>"
    by (simp split: if_splits)
  then show ?thesis by (intro pending_inv_cong [OF inv]) simp_all
qed

lemma run_pending_inv: "pending_inv s \<Longrightarrow> run evs s = Some s' \<Longrightarrow> pending_inv s'"
proof (induction evs arbitrary: s)
  case Nil
  then show ?case by simp
next
  case (Cons e evs)
  then show ?case by (auto split: option.splits dest: step_pending_inv)
qed

lemma launch_pending_inv: "pending s0 = {} \<Longrightarrow> pending_inv (launch args s0)"
  by (rule pending_invI) (simp_all add: launch_def)

lemma step_ids: "step e s = Some s' \<Longrightarrow> ids s' = ids s"
proof (cases e)
  case (EAppend j fault)
  assume "step e s = Some s'"
  with EAppend show ?thesis
    by (cases "appendToArchive fault (ids s ! j) s")
       (use append_frame [of fault "ids s ! j" s] in
        \<open>auto simp: at_def goto_def split: if_splits\<close>)
qed (auto simp: at_def goto_def markPending_def unmarkPending_def handle_frame
       printSummary_def split: if_splits option.splits pc.splits list.splits)

lemma run_ids: "run evs s = Some s' \<Longrightarrow> ids s' = ids s"
proof (induction evs arbitrary: s)
  case Nil
  then show ?case by simp
next
  case (Cons e evs)
  then show ?case by (auto split: option.splits dest: step_ids)
qed

lemma step_jobs_length: "step e s = Some s' \<Longrightarrow> length (jobs s') = length (jobs s)"
proof (cases e)
  case (EAppend j fault)
  assume "step e s = Some s'"
  with EAppend show ?thesis
    by (cases "appendToArchive fault (ids s ! j) s")
       (use append_frame [of fault "ids s ! j" s] in
        \<open>auto simp: at_def goto_def split: if_splits\<close>)
qed (auto simp: at_def goto_def markPending_def unmarkPending_def handle_frame
       printSummary_def split: if_splits option.splits pc.splits list.splits)

lemma step_reporting:
  assumes "reporting (jobs s ! i)" "i < length (jobs s)" "step e s = Some s'"
  shows "reporting (jobs s' ! i) \<and> e \<noteq> EUnmark i"
proof (cases e)
  case (EAppend j fault)
  with assms show ?thesis
    by (cases "appendToArchive fault (ids s ! j) s")
       (use append_frame [of fault "ids s ! j" s] in
        \<open>auto simp: at_def goto_def nth_list_update split: if_splits\<close>)
qed (use assms in \<open>auto simp: at_def goto_def markPending_def unmarkPending_def handle_frame
       printSummary_def nth_list_update split: if_splits option.splits pc.splits list.splits\<close>)

lemma run_reporting:
  "reporting (jobs s ! i) \<Longrightarrow> i < length (jobs s) \<Longrightarrow> run evs s = Some s' \<Longrightarrow>
     EUnmark i \<notin> set evs \<and> reporting (jobs s' ! i)"
proof (induction evs arbitrary: s)
  case Nil
  then show ?case by simp
next
  case (Cons e evs)
  from Cons.prems obtain t where t: "step e s = Some t" "run evs t = Some s'"
    by (auto split: option.splits)
  from step_reporting [OF Cons.prems(1,2) t(1)] step_jobs_length [OF t(1)] Cons.prems(2)
  have "reporting (jobs t ! i)" "i < length (jobs t)" "e \<noteq> EUnmark i" by simp_all
  with Cons.IH [OF _ _ t(2)] show ?case by auto
qed

lemma unmark_needs_owner: "step (EUnmark i) s = Some s' \<Longrightarrow> owns (jobs s ! i) \<and> \<not> reporting (jobs s ! i)"
  by (auto split: if_splits pc.splits)

lemma step_owns:
  assumes "owns (jobs s ! k)" "k < length (jobs s)" "step e s = Some s'" "e \<noteq> EUnmark k"
  shows "owns (jobs s' ! k)"
proof (cases e)
  case (EAppend j fault)
  with assms show ?thesis
    by (cases "appendToArchive fault (ids s ! j) s")
       (use append_frame [of fault "ids s ! j" s] in
        \<open>auto simp: at_def goto_def nth_list_update split: if_splits\<close>)
qed (use assms in \<open>auto simp: at_def goto_def markPending_def unmarkPending_def handle_frame
       printSummary_def nth_list_update split: if_splits option.splits pc.splits list.splits\<close>)

lemma rejected_mark:
  assumes "step (EMark d) s = Some s1" "ids s ! d \<in> pending s"
  shows "pending s1 = pending s"
    and "jobs s1 ! d = AtSend ((new_result s d)\<lparr>Error := Some ''duplicate in progress''\<rparr>)"
    and "d < length (jobs s1)"
  using assms by (auto simp: markPending_def at_def goto_def split: if_splits)

text \<open>
  C10. In every state \<open>s\<close> a set of goroutines can reach (for any list of identifiers,
  duplicates included): the pending set holds exactly the identifiers of the goroutines
  between their successful \<open>markPending\<close> and their deferred \<open>unmarkPending\<close>, and
  an identifier has at most one such owner. A goroutine \<open>d\<close> whose \<open>markPending\<close> returns
  false leaves the pending set as it is and goes straight to the send of its result: no
  continuation of the run contains its \<open>unmarkPending\<close>. No step other than the owner's
  own \<open>unmarkPending\<close> removes the owner's identifier. The owner's \<open>unmarkPending\<close>
  removes it, and when all goroutines have returned the pending set is empty.
\<close>

theorem pending_release_discipline:
  assumes "pending s0 = {}" and "run evs (launch args s0) = Some s"
  shows "pending s = {ids s ! i |i. i < length (jobs s) \<and> owns (jobs s ! i)}
    \<and> (i < length (jobs s) \<and> j < length (jobs s) \<and> owns (jobs s ! i) \<and> owns (jobs s ! j)
         \<and> ids s ! i = ids s ! j \<longrightarrow> i = j)
    \<and> (step (EMark d) s = Some s1 \<and> ids s ! d \<in> pending s \<longrightarrow>
         pending s1 = pending s
         \<and> jobs s1 ! d = AtSend ((new_result s d)\<lparr>Error := Some ''duplicate in progress''\<rparr>)
         \<and> (run evs' s1 = Some s2 \<longrightarrow> EUnmark d \<notin> set evs' \<and> step (EUnmark d) s2 = None))
    \<and> (k < length (jobs s) \<and> owns (jobs s ! k) \<and> step e s = Some s3 \<and> e \<noteq> EUnmark k \<longrightarrow>
         ids s ! k \<in> pending s3 \<and> owns (jobs s3 ! k))
    \<and> (step (EUnmark m) s = Some s4 \<longrightarrow>
         owns (jobs s ! m) \<and> ids s ! m \<notin> pending s4 \<and> \<not> owns (jobs s4 ! m))
    \<and> (list_all (\<lambda>p. p = Returned) (jobs s) \<longrightarrow> pending s = {})"
proof -
  from launch_pending_inv [OF assms(1)] assms(2) have inv: "pending_inv s"
    by (rule run_pending_inv)
  have c1: "pending s = {ids s ! i |i. i < length (jobs s) \<and> owns (jobs s ! i)}"
    using inv by (simp add: pending_inv_def)
  have c2: "i = j" if "i < length (jobs s) \<and> j < length (jobs s) \<and> owns (jobs s ! i)
      \<and> owns (jobs s ! j) \<and> ids s ! i = ids s ! j"
    using that pending_inv_unique [OF inv, of i j] by simp
  have c3: "pending s1 = pending s
      \<and> jobs s1 ! d = AtSend ((new_result s d)\<lparr>Error := Some ''duplicate in progress''\<rparr>)
      \<and> (run evs' s1 = Some s2 \<longrightarrow> EUnmark d \<notin> set evs' \<and> step (EUnmark d) s2 = None)"
    if h: "step (EMark d) s = Some s1 \<and> ids s ! d \<in> pending s"
  proof -
    from h have st: "step (EMark d) s = Some s1" and dup: "ids s ! d \<in> pending s" by simp_all
    note r = rejected_mark [OF st dup]
    from r(2) have rep: "reporting (jobs s1 ! d)" by simp
    have "EUnmark d \<notin> set evs' \<and> step (EUnmark d) s2 = None" if "run evs' s1 = Some s2"
    proof -
      from run_reporting [OF rep r(3) that] have a: "EUnmark d \<notin> set evs'"
        and b: "reporting (jobs s2 ! d)" by simp_all
      from b unmark_needs_owner [of d s2] have "step (EUnmark d) s2 = None"
        by (cases "step (EUnmark d) s2") auto
      with a show ?thesis by simp
    qed
    with r show ?thesis by simp
  qed
  have c4: "ids s ! k \<in> pending s3 \<and> owns (jobs s3 ! k)"
    if h: "k < length (jobs s) \<and> owns (jobs s ! k) \<and> step e s = Some s3 \<and> e \<noteq> EUnmark k"
  proof -
    from h have k: "k < length (jobs s)" and o: "owns (jobs s ! k)"
      and st: "step e s = Some s3" and ne: "e \<noteq> EUnmark k" by simp_all
    from step_owns [OF o k st ne] have o3: "owns (jobs s3 ! k)" .
    from step_pending_inv [OF inv st] have inv3: "pending_inv s3" .
    from k step_jobs_length [OF st] have k3: "k < length (jobs s3)" by simp
    from pending_inv_mem [OF inv3, of "ids s3 ! k"] k3 o3 have "ids s3 ! k \<in> pending s3" by auto
    with step_ids [OF st] o3 show ?thesis by simp
  qed
  have c5: "owns (jobs s ! m) \<and> ids s ! m \<notin> pending s4 \<and> \<not> owns (jobs s4 ! m)"
    if "step (EUnmark m) s = Some s4"
    using that by (auto simp: goto_def unmarkPending_def split: if_splits pc.splits)
  have c6: "pending s = {}" if "list_all (\<lambda>p. p = Returned) (jobs s)"
  proof -
    from that have "\<not> owns (jobs s ! i)" if "i < length (jobs s)" for i
      using that by (auto simp: list_all_length)
    with c1 show ?thesis by auto
  qed
  from c1 c2 c3 c4 c5 c6 show ?thesis by blast
qed


theorem pending_release_discipline_witness:
  "\<exists>s s1 s2 s4 sf.
     run first_owns two_jobs_same_id = Some s
     \<and> pending s = {''x''} \<and> owns (jobs s ! 0)
     \<and> step (EMark 1) s = Some s1 \<and> ids s ! 1 \<in> pending s
     \<and> pending s1 = pending s
     \<and> jobs s1 ! 1 = AtSend ((new_result s 1)\<lparr>Error := Some ''duplicate in progress''\<rparr>)
     \<and> run [ESend 1] s1 = Some s2 \<and> step (EUnmark 1) s2 = None
     \<and> ids s ! 0 \<in> pending s1
     \<and> step (EUnmark 0) s = Some s4 \<and> ids s ! 0 \<notin> pending s4
     \<and> run both_return two_jobs_same_id = Some sf
     \<and> list_all (\<lambda>p. p = Returned) (jobs sf) \<and> pending sf = {}"
proof -
  define s where "s = the (run first_owns two_jobs_same_id)"
  define s1 where "s1 = the (step (EMark 1) s)"
  define s2 where "s2 = the (run [ESend 1] s1)"
  define s4 where "s4 = the (step (EUnmark 0) s)"
  define sf where "sf = the (run both_return two_jobs_same_id)"
  have p0: "pending ((initial None)\<lparr>totalItems := 2\<rparr>) = {}"
    by (simp add: initial_def)
  have r: "run first_owns (launch [''x'', ''x''] ((initial None)\<lparr>totalItems := 2\<rparr>)) = Some s"
    unfolding s_def by code_simp
  have rf: "run both_return (launch [''x'', ''x''] ((initial None)\<lparr>totalItems := 2\<rparr>)) = Some sf"
    unfolding sf_def by code_simp
  have m: "step (EMark 1) s = Some s1" unfolding s1_def s_def by code_simp
  have dup: "ids s ! 1 \<in> pending s" unfolding s_def by code_simp
  have c: "run [ESend 1] s1 = Some s2" unfolding s2_def s1_def s_def by code_simp
  have o: "0 < length (jobs s)" "owns (jobs s ! 0)" "pending s = {''x''}"
    unfolding s_def by code_simp+
  have u: "step (EUnmark 0) s = Some s4" unfolding s4_def s_def by code_simp
  have all: "list_all (\<lambda>p. p = Returned) (jobs sf)" unfolding sf_def by code_simp
  note mid = pending_release_discipline [OF p0 r, where d = 1 and ?s1.0 = s1
      and evs' = "[ESend 1]" and ?s2.0 = s2 and k = 0 and e = "EMark 1" and ?s3.0 = s1
      and m = 0 and ?s4.0 = s4 and i = 0 and j = 0]
  note fin = pending_release_discipline [OF p0 rf]
  have ne: "EMark 1 \<noteq> EUnmark 0" by simp
  from mid m dup have
    a: "pending s1 = pending s"
      "jobs s1 ! 1 = AtSend ((new_result s 1)\<lparr>Error := Some ''duplicate in progress''\<rparr>)"
      "run [ESend 1] s1 = Some s2 \<longrightarrow> EUnmark 1 \<notin> set [ESend 1] \<and> step (EUnmark 1) s2 = None"
    by blast+
  from a(3) c have b: "step (EUnmark 1) s2 = None" by blast
  from mid o m ne have d: "ids s ! 0 \<in> pending s1" by blast
  from mid u have e: "ids s ! 0 \<notin> pending s4" by blast
  from fin all have f: "pending sf = {}" by blast
  from r rf have r': "run first_owns two_jobs_same_id = Some s"
    "run both_return two_jobs_same_id = Some sf"
    by (simp_all only: two_jobs_same_id_def)
  from r' o m dup a(1,2) c b d u e all f show ?thesis by blast
qed

section \<open>Duplicates in the input\<close>

lemma main_init_pending_inv: "pending_inv (main_init env osArgs file)"
proof (rule pending_invI)
  let ?s = "main_init env osArgs file"
  from main_init_cases [of env osArgs "file"] main_init_ids [of env osArgs "file"]
  have j: "jobs ?s = replicate (length (ids ?s)) AtBanner" and p: "pending ?s = {}"
    by (auto simp: main_init_def initArchive_def fatal_def launch_def initial_def Let_def
        split: option.splits prod.splits)
  from j show "length (jobs ?s) = length (ids ?s)" by (metis length_replicate)
  from j have no: "\<not> owns (jobs ?s ! i)" if "i < length (jobs ?s)" for i
    using that by (metis length_replicate nth_replicate owns.simps(5))
  show "x \<in> pending ?s \<longleftrightarrow> (\<exists>i<length (jobs ?s). ids ?s ! i = x \<and> owns (jobs ?s ! i))" for x
    using p no by auto
  show "i = j" if "i < length (jobs ?s)" "owns (jobs ?s ! i)" for i j
    using that no by auto
qed

lemma main_init_distinct: "distinct (ids (main_init env osArgs file))"
  using main_init_ids [of env osArgs "file"]
  by (simp add: deduplicateArgs_def dedup_loop_distinct)

lemma mark_admitted:
  assumes inv: "pending_inv s" and d: "distinct (ids s)" and a: "at s i AtMarkPending"
  shows "ids s ! i \<notin> pending s"
proof
  assume "ids s ! i \<in> pending s"
  with pending_inv_mem [OF inv] obtain j where j: "j < length (jobs s)" "ids s ! j = ids s ! i"
    "owns (jobs s ! j)" by auto
  from a have i: "i < length (ids s)" "jobs s ! i = AtMarkPending" by (simp_all add: at_def)
  from j(1) pending_inv_len [OF inv] have "j < length (ids s)" by simp
  with d i(1) j(2) have "j = i" by (simp add: nth_eq_iff_index_eq)
  with j(3) i(2) show False by simp
qed

lemma in_set_update: "q \<in> set (xs[i := p]) \<Longrightarrow> q = p \<or> q \<in> set xs"
  using set_update_subset_insert [of xs i p] by auto

lemma no_duplicate_goto:
  assumes "no_duplicate_outcome s" "jobs t = jobs s" "results t = results s" "out t = out s"
    "\<And>r. pc_result p = Some r \<Longrightarrow> Error r \<noteq> Some ''duplicate in progress''"
  shows "no_duplicate_outcome (goto i p t)"
  using assms unfolding no_duplicate_outcome_def goto_def
  by (auto dest!: in_set_update)

lemma held_result:
  "no_duplicate_outcome s \<Longrightarrow> i < length (jobs s) \<Longrightarrow> pc_result (jobs s ! i) = Some r \<Longrightarrow>
     Error r \<noteq> Some ''duplicate in progress''"
  unfolding no_duplicate_outcome_def using nth_mem [of i "jobs s"] by blast

lemma step_no_duplicate:
  assumes nd: "no_duplicate_outcome s" and inv: "pending_inv s" and d: "distinct (ids s)"
    and st: "step e s = Some s'"
  shows "no_duplicate_outcome s'"
proof (cases e)
  case (EBanner i)
  with st have s': "s' = goto i AtMarkPending
        (s\<lparr>out := out s @ [ItemBanner (i + 1) (totalItems s) (ids s ! i)]\<rparr>)"
    by (auto split: if_splits)
  from nd have "no_duplicate_outcome (s\<lparr>out := out s @ [ItemBanner (i + 1) (totalItems s) (ids s ! i)]\<rparr>)"
    by (simp add: no_duplicate_outcome_def)
  then show ?thesis unfolding s' by (rule no_duplicate_goto) simp_all
next
  case (EMark i)
  with st have a: "at s i AtMarkPending" by (auto split: if_splits)
  from mark_admitted [OF inv d a] st EMark a
  have s': "s' = goto i AtArchiveCheck (s\<lparr>pending := insert (ids s ! i) (pending s)\<rparr>)"
    by (auto simp: markPending_def)
  show ?thesis unfolding s' by (rule no_duplicate_goto [OF nd]) simp_all
next
  case (ECheck i)
  with st show ?thesis
    by (auto split: if_splits intro!: no_duplicate_goto [OF nd])
next
  case (ECmd i outcome)
  with st show ?thesis
    by (auto split: if_splits option.splits intro!: no_duplicate_goto [OF nd])
next
  case (EAppend i fault)
  with st obtain r where
    s': "s' = goto i (AtUnmark ((new_result s i)\<lparr>ArchiveErr := r\<rparr>))
               (snd (appendToArchive fault (ids s ! i) s))"
    by (cases "appendToArchive fault (ids s ! i) s") (auto split: if_splits)
  have o: "out (snd (appendToArchive fault (ids s ! i) s)) = out s"
    by (simp add: appendToArchive_def Let_def split: append_fault.splits)
  show ?thesis unfolding s'
    by (rule no_duplicate_goto [OF nd]) (simp_all add: append_frame o new_result_def)
next
  case (EUnmark i)
  with st obtain r where i: "i < length (jobs s)" and r: "jobs s ! i = AtUnmark r"
    and s': "s' = goto i (AtSend r) (unmarkPending (ids s ! i) s)"
    by (auto split: if_splits pc.splits)
  from held_result [OF nd i, of r] r have "Error r \<noteq> Some ''duplicate in progress''" by simp
  then show ?thesis unfolding s'
    by (intro no_duplicate_goto [OF nd]) (simp_all add: unmarkPending_def)
next
  case (ESend i)
  with st obtain r where i: "i < length (jobs s)" and r: "jobs s ! i = AtSend r"
    and s': "s' = goto i Returned (s\<lparr>results := results s @ [r]\<rparr>)"
    by (auto split: if_splits pc.splits)
  from held_result [OF nd i, of r] r have "Error r \<noteq> Some ''duplicate in progress''" by simp
  with nd have "no_duplicate_outcome (s\<lparr>results := results s @ [r]\<rparr>)"
    by (simp add: no_duplicate_outcome_def)
  then show ?thesis unfolding s' by (rule no_duplicate_goto) simp_all
next
  case EClose
  with st nd show ?thesis by (auto simp: no_duplicate_outcome_def split: if_splits)
next
  case ERecv
  with st nd show ?thesis
    by (auto simp: no_duplicate_outcome_def handleProcessingResult_def
        split: if_splits list.splits option.splits)
next
  case EFinish
  with st nd show ?thesis
    by (auto simp: no_duplicate_outcome_def printSummary_def split: if_splits)
next
  case ESignal
  with st nd show ?thesis by (auto simp: no_duplicate_outcome_def split: if_splits)
qed

lemma run_no_duplicate:
  "no_duplicate_outcome s \<Longrightarrow> pending_inv s \<Longrightarrow> distinct (ids s) \<Longrightarrow> run evs s = Some s' \<Longrightarrow>
     no_duplicate_outcome s'"
proof (induction evs arbitrary: s)
  case Nil
  then show ?case by simp
next
  case (Cons e evs)
  from Cons.prems obtain t where t: "step e s = Some t" "run evs t = Some s'"
    by (auto split: option.splits)
  from step_no_duplicate [OF Cons.prems(1,2,3) t(1)] step_pending_inv [OF Cons.prems(2) t(1)]
    step_ids [OF t(1)] Cons.prems(3) Cons.IH [OF _ _ _ t(2)]
  show ?case by simp
qed

lemma main_init_no_duplicate: "no_duplicate_outcome (main_init env osArgs file)"
  by (auto simp: main_init_def initArchive_def fatal_def launch_def initial_def Let_def
        no_duplicate_outcome_def split: option.splits prod.splits)

lemma distinct_count_list: "distinct xs \<Longrightarrow> x \<in> set xs \<Longrightarrow> count_list xs x = 1"
  by (induction xs) (auto simp: count_list_0_iff)

text \<open>
  The input \<open>a a\<close> supplies the identifier twice, and one goroutine is created, not
  two: there is no second job for the pending set to reject. The run ends with one
  success and no other result.
\<close>

theorem duplicate_inputs_counterexample:
  "count_list [''a'', ''a''] ''a'' = 2
   \<and> exit_code (main_init no_faults [''a'', ''a''] None) = None
   \<and> ids (main_init no_faults [''a'', ''a''] None) = [''a'']
   \<and> jobs (main_init no_faults [''a'', ''a''] None) = [AtBanner]
   \<and> map_option (\<lambda>s. (exit_code s, totalItems s, processedCount s, skippedCount s, errorCount s))
         (run single_item_ok (main_init no_faults [''a'', ''a''] None))
       = Some (Some 0, 1, 1, 0, 0)"
  by code_simp

text \<open>
  C5, as the code has it. The goroutines are created from the deduplicated arguments:
  in every state of a run the identifiers of the jobs are distinct, and an identifier
  supplied any number of times has exactly one job. That job is always admitted by
  \<open>markPending\<close>, no result of the run carries the error of a rejected
  \<open>markPending\<close>, and the job goes on to run the command unless the archive already
  holds its identifier.
\<close>

theorem duplicates_collapsed_before_jobs:
  assumes "run evs (main_init env osArgs file) = Some s"
  shows "distinct (ids s) \<and> length (jobs s) = length (ids s)
    \<and> (x \<in> set osArgs \<and> exit_code (main_init env osArgs file) = None \<longrightarrow>
         count_list (ids s) x = 1)
    \<and> (step (EMark i) s = Some s1 \<longrightarrow> jobs s1 ! i = AtArchiveCheck \<and> ids s ! i \<in> pending s1)
    \<and> no_duplicate_outcome s
    \<and> (step (ECheck k) s = Some s2 \<longrightarrow>
         jobs s2 ! k =
           (if ids s ! k \<in> processedArchive s
            then AtUnmark ((new_result s k)\<lparr>Error := Some ''skipped (archived)''\<rparr>)
            else AtCmdRun))"
proof -
  let ?s0 = "main_init env osArgs file"
  from run_ids [OF assms] have ids: "ids s = ids ?s0" .
  with main_init_distinct [of env osArgs "file"] have d: "distinct (ids s)" by simp
  from run_pending_inv [OF main_init_pending_inv assms] have inv: "pending_inv s" .
  from pending_inv_len [OF inv] have len: "length (jobs s) = length (ids s)" .
  from run_no_duplicate [OF main_init_no_duplicate main_init_pending_inv
      main_init_distinct assms]
  have nd: "no_duplicate_outcome s" .
  have one: "count_list (ids s) x = 1" if "x \<in> set osArgs \<and> exit_code ?s0 = None"
  proof -
    from that main_init_ids [of env osArgs "file"] ids
    have "ids s = deduplicateArgs osArgs" by simp
    with that have "x \<in> set (ids s)" by (simp add: deduplicateArgs_def dedup_loop_set)
    with d show ?thesis by (rule distinct_count_list)
  qed
  have adm: "jobs s1 ! i = AtArchiveCheck \<and> ids s ! i \<in> pending s1"
    if st: "step (EMark i) s = Some s1"
  proof -
    from st have a: "at s i AtMarkPending" by (auto split: if_splits)
    from mark_admitted [OF inv d a] st a show ?thesis
      by (auto simp: markPending_def at_def goto_def)
  qed
  have chk: "jobs s2 ! k =
           (if ids s ! k \<in> processedArchive s
            then AtUnmark ((new_result s k)\<lparr>Error := Some ''skipped (archived)''\<rparr>)
            else AtCmdRun)" if "step (ECheck k) s = Some s2"
    using that by (auto simp: at_def goto_def split: if_splits)
  from d len one adm nd chk show ?thesis by blast
qed


theorem duplicates_collapsed_before_jobs_witness:
  "\<exists>s s1 t s2.
     run [EBanner 0, EBanner 1] (main_init no_faults [''a'', ''a'', ''b''] None) = Some s
     \<and> ''a'' \<in> set [''a'', ''a'', ''b'']
     \<and> exit_code (main_init no_faults [''a'', ''a'', ''b''] None) = None
     \<and> ids s = [''a'', ''b''] \<and> count_list (ids s) ''a'' = 1
     \<and> step (EMark 0) s = Some s1 \<and> jobs s1 ! 0 = AtArchiveCheck \<and> ids s ! 0 \<in> pending s1
     \<and> run [EBanner 0, EMark 0] (main_init no_faults [''a'', ''a'', ''b''] None) = Some t
     \<and> step (ECheck 0) t = Some s2 \<and> jobs s2 ! 0 = AtCmdRun"
proof -
  define s where "s = the (run [EBanner 0, EBanner 1] (main_init no_faults [''a'', ''a'', ''b''] None))"
  define s1 where "s1 = the (step (EMark 0) s)"
  define t where "t = the (run [EBanner 0, EMark 0] (main_init no_faults [''a'', ''a'', ''b''] None))"
  define s2 where "s2 = the (step (ECheck 0) t)"
  have r: "run [EBanner 0, EBanner 1] (main_init no_faults [''a'', ''a'', ''b''] None) = Some s"
    unfolding s_def by code_simp
  have rt: "run [EBanner 0, EMark 0] (main_init no_faults [''a'', ''a'', ''b''] None) = Some t"
    unfolding t_def by code_simp
  have x: "''a'' \<in> set [''a'', ''a'', ''b'']" by simp
  have e: "exit_code (main_init no_faults [''a'', ''a'', ''b''] None) = None" by code_simp
  have i: "ids s = [''a'', ''b'']" unfolding s_def by code_simp
  have m: "step (EMark 0) s = Some s1" unfolding s1_def s_def by code_simp
  have c: "step (ECheck 0) t = Some s2" unfolding s2_def t_def by code_simp
  have a: "ids t ! 0 \<notin> processedArchive t" unfolding t_def by code_simp
  note duplicates_collapsed_before_jobs [OF r, where x = "''a''" and i = 0 and ?s1.0 = s1]
  with x e m have "count_list (ids s) ''a'' = 1" "jobs s1 ! 0 = AtArchiveCheck"
    "ids s ! 0 \<in> pending s1" by blast+
  moreover from duplicates_collapsed_before_jobs [OF rt, where k = 0 and ?s2.0 = s2] c a have "jobs s2 ! 0 = AtCmdRun"
    by simp
  ultimately show ?thesis using r rt x e i m c by blast
qed

section \<open>Appending to the archive\<close>

lemma append_archive:
  "processedArchive (snd (appendToArchive f x s)) =
     (if f = NoFault then insert x (processedArchive s) else processedArchive s)"
  by (simp add: appendToArchive_def Let_def split: append_fault.splits)

lemma step_append_fresh:
  assumes fr: "append_fresh s" and inv: "pending_inv s" and st: "step e s = Some s'"
  shows "append_fresh s'"
proof (cases e)
  case (EAppend i fault)
  with st have a: "at s i AtAppend" by (auto split: if_splits)
  from st EAppend a obtain r where
    s': "s' = goto i (AtUnmark r) (snd (appendToArchive fault (ids s ! i) s))"
    by (cases "appendToArchive fault (ids s ! i) s") auto
  from a have i: "i < length (jobs s)" "jobs s ! i = AtAppend" by (simp_all add: at_def)
  show ?thesis unfolding append_fresh_def
  proof (intro allI impI)
    fix j assume j: "j < length (jobs s')" and run: "jobs s' ! j = AtCmdRun \<or> jobs s' ! j = AtAppend"
    from j have j': "j < length (jobs s)" by (simp add: s' goto_def append_frame)
    from run have ne: "j \<noteq> i" using i(1) by (auto simp: s' goto_def append_frame)
    with run have old: "jobs s ! j = AtCmdRun \<or> jobs s ! j = AtAppend"
      by (simp add: s' goto_def append_frame)
    with fr j' have "ids s ! j \<notin> processedArchive s" unfolding append_fresh_def by blast
    moreover from old have "owns (jobs s ! j)" by auto
    with pending_inv_unique [OF inv j' i(1)] i(2) ne have "ids s ! j \<noteq> ids s ! i" by auto
    ultimately show "ids s' ! j \<notin> processedArchive s'"
      by (simp add: s' goto_def append_frame append_archive)
  qed
qed (use fr st in \<open>auto simp: append_fresh_def at_def goto_def markPending_def unmarkPending_def
       handle_frame printSummary_def nth_list_update
       split: if_splits option.splits pc.splits list.splits\<close>)

lemma run_append_fresh:
  "append_fresh s \<Longrightarrow> pending_inv s \<Longrightarrow> run evs s = Some s' \<Longrightarrow> append_fresh s'"
proof (induction evs arbitrary: s)
  case Nil
  then show ?case by simp
next
  case (Cons e evs)
  from Cons.prems obtain t where t: "step e s = Some t" "run evs t = Some s'"
    by (auto split: option.splits)
  from step_append_fresh [OF Cons.prems(1,2) t(1)] step_pending_inv [OF Cons.prems(2) t(1)]
    Cons.IH [OF _ _ t(2)]
  show ?case by simp
qed

lemma launch_append_fresh: "append_fresh (launch args s0)"
  by (simp add: append_fresh_def launch_def)

text \<open>
  The archive file holds the line \<open>a\<close> and has been loaded. Appending \<open>a\<close> again
  succeeds, opens the file and writes the line a second time.
\<close>

theorem append_present_counterexample:
  "''a'' \<in> processedArchive loaded_a
   \<and> archiveFile loaded_a = Some ''a\<newline>''
   \<and> fst (appendToArchive NoFault ''a'' loaded_a) = None
   \<and> archiveFile (snd (appendToArchive NoFault ''a'' loaded_a)) = Some ''a\<newline>a\<newline>''
   \<and> fsops (snd (appendToArchive NoFault ''a'' loaded_a)) =
       fsops loaded_a @ [OpenAppend True, WriteFile ''a\<newline>'']
   \<and> ScanLines ''a\<newline>a\<newline>'' = [''a'', ''a'']"
  by code_simp

text \<open>
  C2, as the code has it. \<open>appendToArchive\<close> has no membership check: for an identifier
  the in-memory archive already holds, an append with no fault returns no error, leaves
  the in-memory archive as it is, and still opens the file and writes the identifier as
  one more line. In a run it is not called for such an identifier: a goroutine that
  reaches \<open>appendToArchive\<close> works on an identifier the in-memory archive does not
  hold (for any list of identifiers, duplicates included).
\<close>

theorem append_present_writes_again:
  "(identifier \<in> processedArchive s \<longrightarrow>
      fst (appendToArchive NoFault identifier s) = None
      \<and> processedArchive (snd (appendToArchive NoFault identifier s)) = processedArchive s
      \<and> archiveFile (snd (appendToArchive NoFault identifier s)) =
          Some ((case archiveFile s of None \<Rightarrow> [] | Some c \<Rightarrow> c) @ identifier @ [CHR 0x0A])
      \<and> fsops (snd (appendToArchive NoFault identifier s)) =
          fsops s @ [OpenAppend True, WriteFile (identifier @ [CHR 0x0A])])
   \<and> (pending s0 = {} \<and> run evs (launch args s0) = Some t \<and> step (EAppend i fault) t = Some t'
        \<longrightarrow> ids t ! i \<notin> processedArchive t)"
proof -
  have a: "fst (appendToArchive NoFault identifier s) = None
      \<and> processedArchive (snd (appendToArchive NoFault identifier s)) = processedArchive s
      \<and> archiveFile (snd (appendToArchive NoFault identifier s)) =
          Some ((case archiveFile s of None \<Rightarrow> [] | Some c \<Rightarrow> c) @ identifier @ [CHR 0x0A])
      \<and> fsops (snd (appendToArchive NoFault identifier s)) =
          fsops s @ [OpenAppend True, WriteFile (identifier @ [CHR 0x0A])]"
    if "identifier \<in> processedArchive s"
    using that by (simp add: appendToArchive_def Let_def insert_absorb)
  have b: "ids t ! i \<notin> processedArchive t"
    if h: "pending s0 = {} \<and> run evs (launch args s0) = Some t \<and> step (EAppend i fault) t = Some t'"
  proof -
    from h have p: "pending s0 = {}" and r: "run evs (launch args s0) = Some t"
      and st: "step (EAppend i fault) t = Some t'" by simp_all
    from run_append_fresh [OF launch_append_fresh launch_pending_inv [OF p] r]
    have fr: "append_fresh t" .
    from st have "i < length (jobs t)" "jobs t ! i = AtAppend"
      by (auto simp: at_def split: if_splits)
    with fr show ?thesis unfolding append_fresh_def by blast
  qed
  from a b show ?thesis by blast
qed


theorem append_present_writes_again_witness:
  "\<exists>t t'.
     ''a'' \<in> processedArchive loaded_a
     \<and> fst (appendToArchive NoFault ''a'' loaded_a) = None
     \<and> processedArchive (snd (appendToArchive NoFault ''a'' loaded_a)) = processedArchive loaded_a
     \<and> archiveFile (snd (appendToArchive NoFault ''a'' loaded_a)) = Some ''a\<newline>a\<newline>''
     \<and> pending ((initial None)\<lparr>totalItems := 2\<rparr>) = {}
     \<and> run [EBanner 0, EBanner 1, EMark 0, ECheck 0, ECmd 0 None] two_jobs_same_id = Some t
     \<and> step (EAppend 0 NoFault) t = Some t'
     \<and> ids t ! 0 \<notin> processedArchive t"
proof -
  define t where
    "t = the (run [EBanner 0, EBanner 1, EMark 0, ECheck 0, ECmd 0 None] two_jobs_same_id)"
  define t' where "t' = the (step (EAppend 0 NoFault) t)"
  have m: "''a'' \<in> processedArchive loaded_a" by code_simp
  have f: "archiveFile loaded_a = Some ''a\<newline>''" by code_simp
  have p0: "pending ((initial None)\<lparr>totalItems := 2\<rparr>) = {}" by (simp add: initial_def)
  have r: "run [EBanner 0, EBanner 1, EMark 0, ECheck 0, ECmd 0 None]
      (launch [''x'', ''x''] ((initial None)\<lparr>totalItems := 2\<rparr>)) = Some t"
    unfolding t_def by code_simp
  have st: "step (EAppend 0 NoFault) t = Some t'" unfolding t'_def t_def by code_simp
  note th = append_present_writes_again [where ?identifier = "''a''" and s = loaded_a
      and ?s0.0 = "(initial None)\<lparr>totalItems := 2\<rparr>" and args = "[''x'', ''x'']"
      and evs = "[EBanner 0, EBanner 1, EMark 0, ECheck 0, ECmd 0 None]" and t = t
      and i = 0 and fault = NoFault and t' = t']
  from th m have a: "fst (appendToArchive NoFault ''a'' loaded_a) = None"
    "processedArchive (snd (appendToArchive NoFault ''a'' loaded_a)) = processedArchive loaded_a"
    "archiveFile (snd (appendToArchive NoFault ''a'' loaded_a)) =
       Some ((case archiveFile loaded_a of None \<Rightarrow> [] | Some c \<Rightarrow> c) @ ''a'' @ [CHR 0x0A])"
    by blast+
  from a(3) f have a3: "archiveFile (snd (appendToArchive NoFault ''a'' loaded_a)) =
      Some ''a\<newline>a\<newline>''" by simp
  from th p0 r st have b: "ids t ! 0 \<notin> processedArchive t" by blast
  from r have r': "run [EBanner 0, EBanner 1, EMark 0, ECheck 0, ECmd 0 None] two_jobs_same_id = Some t"
    by (simp only: two_jobs_same_id_def)
  from m a(1,2) a3 p0 r' st b show ?thesis by blast
qed

text \<open>
  C6. \<open>appendToArchive\<close> returns an error exactly when the open or the write fails,
  and then the in-memory archive is what it was before the call: the identifier is
  marked present only after a successful write. In a run, the goroutine whose append
  failed reports the archive error and the in-memory archive is unchanged, so a later
  membership test in the same run answers as before.
\<close>

theorem append_failure_keeps_memory:
  "(fst (appendToArchive fault identifier s) \<noteq> None) = (fault \<noteq> NoFault)
   \<and> (fault \<noteq> NoFault \<longrightarrow>
        processedArchive (snd (appendToArchive fault identifier s)) = processedArchive s)
   \<and> (fault \<noteq> NoFault \<longrightarrow> step (EAppend i fault) s = Some s' \<longrightarrow>
        processedArchive s' = processedArchive s
        \<and> (\<exists>r. jobs s' ! i = AtUnmark r \<and> ArchiveErr r \<noteq> None))"
  by (cases fault) (auto simp: appendToArchive_def Let_def goto_def at_def split: if_splits)

theorem append_failure_keeps_memory_witness:
  "\<exists>s'.
     WriteFails 1 ''no space left on device'' \<noteq> NoFault
     \<and> fst (appendToArchive (WriteFails 1 ''no space left on device'') ''a''
           (goto 0 AtAppend (launch [''a''] (initial None)))) \<noteq> None
     \<and> step (EAppend 0 (WriteFails 1 ''no space left on device''))
           (goto 0 AtAppend (launch [''a''] (initial None))) = Some s'
     \<and> processedArchive s' = {} \<and> archiveFile s' = Some ''a''
     \<and> (\<exists>r. jobs s' ! 0 = AtUnmark r \<and> ArchiveErr r \<noteq> None)
     \<and> OpenFails ''permission denied'' \<noteq> NoFault
     \<and> fst (appendToArchive (OpenFails ''permission denied'') ''a'' loaded_a) \<noteq> None
     \<and> processedArchive (snd (appendToArchive (OpenFails ''permission denied'') ''a'' loaded_a))
         = processedArchive loaded_a"
proof -
  let ?w = "WriteFails 1 ''no space left on device''"
  let ?s = "goto 0 AtAppend (launch [''a''] (initial None))"
  define s' where "s' = the (step (EAppend 0 ?w) ?s)"
  have nw: "?w \<noteq> NoFault" and no: "OpenFails ''permission denied'' \<noteq> NoFault" by simp_all
  have st: "step (EAppend 0 ?w) ?s = Some s'" unfolding s'_def by code_simp
  have p: "processedArchive ?s = {}" by code_simp
  have f: "archiveFile s' = Some ''a''" unfolding s'_def by code_simp
  note w = append_failure_keeps_memory [of ?w "''a''" ?s 0 s']
  note o = append_failure_keeps_memory [of "OpenFails ''permission denied''" "''a''" loaded_a 0 loaded_a]
  from w nw have a: "fst (appendToArchive ?w ''a'' ?s) \<noteq> None" by blast
  from w nw st have b: "processedArchive s' = processedArchive ?s"
    "\<exists>r. jobs s' ! 0 = AtUnmark r \<and> ArchiveErr r \<noteq> None" by blast+
  from o no have c: "fst (appendToArchive (OpenFails ''permission denied'') ''a'' loaded_a) \<noteq> None"
    "processedArchive (snd (appendToArchive (OpenFails ''permission denied'') ''a'' loaded_a))
         = processedArchive loaded_a" by blast+
  from b(1) p have b1: "processedArchive s' = {}" by simp
  from nw a st b1 f b(2) no c show ?thesis by blast
qed

end
